theory Spec2Isabelle
  imports Complex_Main "HOL-Library.Log_Nat" "HOL-Library.Sublist"
begin

section \<open>AutonoWrite: the browser helpers of \<^verbatim>\<open>app/static/js/main.js\<close>\<close>

subsection \<open>\<^verbatim>\<open>debounce\<close>: timers and the debounced closure\<close>

text \<open>
  The source:
  \<^verbatim>\<open>
  function debounce(func, wait) {
      let timeout;
      return function() {
          const context = this;
          const args = arguments;
          clearTimeout(timeout);
          timeout = setTimeout(() => func.apply(context, args), wait);
      };
  }
  \<close>
  The browser's timer table and the closure variable \<^verbatim>\<open>timeout\<close> are explicit state.
  Time is a natural number of milliseconds. A pending timer is a triple of its id, the
  time it is due and the payload it will hand to \<^verbatim>\<open>func\<close>: the pair of
  \<^verbatim>\<open>context\<close> and \<^verbatim>\<open>args\<close> captured by the arrow function, kept abstract
  as \<open>'a\<close>. \<open>invoked\<close> logs every \<^verbatim>\<open>func.apply(context, args)\<close> with the time
  its timer was due, which tells the calls apart. \<^verbatim>\<open>func\<close> itself is opaque: it is
  assumed not to call the debounced function or to touch the timers.
\<close>

record 'a world =
  clock :: nat
  next_id :: nat
  pending :: "(nat \<times> nat \<times> 'a) list"
  timeout :: "nat option"
  invoked :: "(nat \<times> 'a) list"

text \<open>
  \<^verbatim>\<open>clearTimeout(id)\<close> removes the timer with that id if it is still pending and
  does nothing for \<^verbatim>\<open>undefined\<close> (here \<open>None\<close>) or for an id that has fired.
\<close>

definition clearTimeout :: "nat option \<Rightarrow> 'a world \<Rightarrow> 'a world" where
  "clearTimeout tid w =
     (case tid of
        None \<Rightarrow> w
      | Some i \<Rightarrow> w\<lparr>pending := filter (\<lambda>(j, d, a). j \<noteq> i) (pending w)\<rparr>)"

text \<open>
  \<^verbatim>\<open>setTimeout(callback, wait)\<close> takes its delay as a signed 32-bit integer (the
  \<^verbatim>\<open>long timeout\<close> of the HTML Standard): the number is reduced modulo \<open>2 ^ 32\<close>
  into the range from \<open>- 2 ^ 31\<close> to below \<open>2 ^ 31\<close>, and a negative delay counts as
  \<open>0\<close>. So a \<open>wait\<close> of \<open>2 ^ 31\<close> ms or more does not wait that long; at
  \<open>2 ^ 31\<close> itself the timer is due at once. The delay is an integer number of
  milliseconds here.
\<close>

definition to_long :: "int \<Rightarrow> int" where
  "to_long n = (let m = n mod 2 ^ 32 in if 2 ^ 31 \<le> m then m - 2 ^ 32 else m)"

definition timer_delay :: "int \<Rightarrow> nat" where
  "timer_delay wait = (if to_long wait < 0 then 0 else nat (to_long wait))"

text \<open>The timer is registered under a fresh id, which the call returns.\<close>

definition setTimeout :: "'a \<Rightarrow> int \<Rightarrow> 'a world \<Rightarrow> nat \<times> 'a world" where
  "setTimeout a wait w =
     (next_id w,
      w\<lparr>pending := pending w @ [(next_id w, clock w + timer_delay wait, a)],
        next_id := Suc (next_id w)\<rparr>)"

text \<open>One call of the function that \<^verbatim>\<open>debounce(func, wait)\<close> returns.\<close>

definition debounced :: "int \<Rightarrow> 'a \<Rightarrow> 'a world \<Rightarrow> 'a world" where
  "debounced wait a w =
     (let w1 = clearTimeout (timeout w) w;
          (tid, w2) = setTimeout a wait w1
      in w2\<lparr>timeout := Some tid\<rparr>)"

text \<open>
  The event loop reaching its timers at time \<open>t\<close>: every pending timer that is due by
  then fires, in the order of the due times, and its callback runs \<^verbatim>\<open>func\<close>. A
  timer never fires before it is due; it may fire late, when the loop gets to it.
\<close>

definition advance :: "nat \<Rightarrow> 'a world \<Rightarrow> 'a world" where
  "advance t w =
     (let ready = sort_key (\<lambda>(i, d, a). d) (filter (\<lambda>(i, d, a). d \<le> t) (pending w))
      in w\<lparr>clock := max (clock w) t,
           pending := filter (\<lambda>(i, d, a). \<not> d \<le> t) (pending w),
           invoked := invoked w @ map (\<lambda>(i, d, a). (d, a)) ready\<rparr>)"

text \<open>
  What happens in the page, in the order it happens: \<open>Call t a\<close> is a call of the
  debounced function at time \<open>t\<close> with payload \<open>a\<close>, \<open>Tick t\<close> is the loop running
  its due timers at time \<open>t\<close>. A history need not have a \<open>Tick\<close> at the moment a
  timer falls due: a busy loop runs its timers late, or a call gets in first.
\<close>

datatype 'a loop_event = Call nat 'a | Tick nat

fun ev_time :: "'a loop_event \<Rightarrow> nat" where
  "ev_time (Call t a) = t"
| "ev_time (Tick t) = t"

fun calls_of :: "'a loop_event list \<Rightarrow> (nat \<times> 'a) list" where
  "calls_of [] = []"
| "calls_of (Call t a # es) = (t, a) # calls_of es"
| "calls_of (Tick t # es) = calls_of es"

fun step :: "int \<Rightarrow> 'a world \<Rightarrow> 'a loop_event \<Rightarrow> 'a world" where
  "step wait w (Call t a) = debounced wait a (w\<lparr>clock := max (clock w) t\<rparr>)"
| "step wait w (Tick t) = advance t w"

definition run_events :: "int \<Rightarrow> 'a loop_event list \<Rightarrow> 'a world \<Rightarrow> 'a world" where
  "run_events wait evs w = foldl (step wait) w evs"

text \<open>
  The punctual loop: it runs its due timers just before every call, and after the last
  call until no timer is pending.
\<close>

definition call_at :: "int \<Rightarrow> 'a world \<Rightarrow> nat \<times> 'a \<Rightarrow> 'a world" where
  "call_at wait w c = step wait (step wait w (Tick (fst c))) (Call (fst c) (snd c))"

definition run_calls :: "int \<Rightarrow> (nat \<times> 'a) list \<Rightarrow> 'a world \<Rightarrow> 'a world" where
  "run_calls wait calls w = foldl (call_at wait) w calls"

definition flush :: "'a world \<Rightarrow> 'a world" where
  "flush w = advance (fold max (map (\<lambda>(i, d, a). d) (pending w)) (clock w)) w"

definition init_world :: "'a world" where
  "init_world = \<lparr>clock = 0, next_id = 1, pending = [], timeout = None, invoked = []\<rparr>"

text \<open>
  The specification side. A burst is a maximal run of consecutive calls each less than
  \<open>wait\<close> ms after the one before; \<open>bursts\<close> cuts a call sequence into its bursts,
  and \<open>fired\<close> is the one invocation a burst is entitled to: \<open>wait\<close> ms after its last
  call, with that call's payload.
\<close>

fun bursts :: "nat \<Rightarrow> (nat \<times> 'a) list \<Rightarrow> (nat \<times> 'a) list list" where
  "bursts wait [] = []"
| "bursts wait (c # cs) =
     (case bursts wait cs of
        [] \<Rightarrow> [[c]]
      | b # bs \<Rightarrow> if fst (hd b) < fst c + wait then (c # b) # bs else [c] # b # bs)"

definition fired :: "nat \<Rightarrow> (nat \<times> 'a) list \<Rightarrow> nat \<times> 'a" where
  "fired wait b = (fst (last b) + wait, snd (last b))"

text \<open>The last call of every burst, computed directly (used in the proofs).\<close>

fun burst_lasts :: "nat \<Rightarrow> (nat \<times> 'a) list \<Rightarrow> (nat \<times> 'a) list" where
  "burst_lasts wait [] = []"
| "burst_lasts wait [c] = [c]"
| "burst_lasts wait (c # d # cs) =
     (if fst d < fst c + wait then burst_lasts wait (d # cs)
      else c # burst_lasts wait (d # cs))"

subsection \<open>The submit handlers of forms with class \<^verbatim>\<open>needs-validation\<close>\<close>

text \<open>
  The part of the DOM the two handlers read and write. A class list is a
  \<^verbatim>\<open>DOMTokenList\<close>: \<^verbatim>\<open>add\<close> appends a token that is not yet there.
\<close>

definition class_add :: "string \<Rightarrow> string list \<Rightarrow> string list" where
  "class_add c cs = (if c \<in> set cs then cs else cs @ [c])"

definition class_contains :: "string \<Rightarrow> string list \<Rightarrow> bool" where
  "class_contains c cs = (c \<in> set cs)"

text \<open>
  What a handler can change on an element of the form: its class list, its
  \<^verbatim>\<open>nextElementSibling\<close> (\<open>sibling\<close>) and whether it was scrolled into view.
\<close>

record feedback_el =
  fb_classes :: "string list"
  fb_display :: string

record dom_state =
  st_classes :: "string list"
  sibling :: "feedback_el option"
  scrolled :: bool

text \<open>
  The descendants of the form that can match \<^verbatim>\<open>:invalid\<close>, in document order: a
  control, with the flag whether it satisfies its constraints, or a fieldset with the
  controls and fieldsets inside it. Controls are taken to be descendants of their form.
\<close>

datatype node = Control bool dom_state | Fieldset dom_state "node list"

record button =
  btn_disabled :: bool
  btn_html :: string


text \<open>
  \<open>submit_button\<close> is the result of
  \<^verbatim>\<open>form.querySelector('button[type="submit"]:not([name="back"])')\<close>.
\<close>

record form =
  form_classes :: "string list"
  noValidate :: bool
  form_nodes :: "node list"
  submit_button :: "button option"




text \<open>\<^verbatim>\<open>form.checkValidity()\<close>: every control of the form satisfies its constraints.\<close>

fun controls_valid :: "node \<Rightarrow> bool" where
  "controls_valid (Control v s) = v"
| "controls_valid (Fieldset s ns) = list_all controls_valid ns"

definition checkValidity :: "form \<Rightarrow> bool" where
  "checkValidity frm = list_all controls_valid (form_nodes frm)"

text \<open>
  The selector \<^verbatim>\<open>:invalid\<close> matches a control that does not satisfy its constraints
  and a fieldset that holds such a control.
\<close>

fun matches_invalid :: "node \<Rightarrow> bool" where
  "matches_invalid (Control v s) = (\<not> v)"
| "matches_invalid (Fieldset s ns) = list_ex matches_invalid ns"




text \<open>
  The handler of \<^verbatim>\<open>initFormValidation\<close>. On an invalid form every element of
  \<^verbatim>\<open>form.querySelectorAll(':invalid')\<close> gets the class \<^verbatim>\<open>is-invalid\<close>, its
  sibling is displayed when it carries \<^verbatim>\<open>invalid-feedback\<close>, and the first of them
  in document order is scrolled into view. A fieldset comes before what it holds, and
  an element that does not match holds none that does.
\<close>

definition show_feedback :: "feedback_el option \<Rightarrow> feedback_el option" where
  "show_feedback fb =
     (case fb of
        None \<Rightarrow> None
      | Some e \<Rightarrow>
          if class_contains ''invalid-feedback'' (fb_classes e)
          then Some (e\<lparr>fb_display := ''block''\<rparr>) else Some e)"

definition flag_invalid :: "dom_state \<Rightarrow> dom_state" where
  "flag_invalid s =
     s\<lparr>st_classes := class_add ''is-invalid'' (st_classes s),
       sibling := show_feedback (sibling s)\<rparr>"

fun mark_invalid :: "node \<Rightarrow> node" where
  "mark_invalid (Control v s) = Control v (if v then s else flag_invalid s)"
| "mark_invalid (Fieldset s ns) =
     Fieldset (if list_ex matches_invalid ns then flag_invalid s else s) (map mark_invalid ns)"






subsection \<open>\<^verbatim>\<open>formatBytes\<close>\<close>

text \<open>
  The source:
  \<^verbatim>\<open>
  function formatBytes(bytes, decimals = 2) {
      if (bytes === 0) return '0 Bytes';
      const k = 1024;
      const dm = decimals < 0 ? 0 : decimals;
      const sizes = ['Bytes', 'KB', 'MB', 'GB', 'TB'];
      const i = Math.floor(Math.log(bytes) / Math.log(k));
      return parseFloat((bytes / Math.pow(k, i)).toFixed(dm)) + ' ' + sizes[i];
  }
  \<close>
  A JavaScript number is an IEEE 754 double. A finite double is modelled by the rational
  it denotes, and every arithmetic operation rounds its exact result to the nearest
  double, ties to the even significand. \<open>to_double\<close> is that rounding for magnitudes in
  the normal range (between \<open>2 powi (- 1022)\<close> and \<open>2 powi 1024\<close>), which is where all
  values of this function lie for the inputs considered; overflow, subnormals and NaN
  are not modelled.
\<close>

definition round_half_even :: "rat \<Rightarrow> int" where
  "round_half_even x =
     (let f = \<lfloor>x\<rfloor>; r = x - of_int f
      in if r < 1 / 2 then f else if 1 / 2 < r then f + 1 else if even f then f else f + 1)"

text \<open>The exponent \<open>e\<close> with \<open>2 powi e \<le> x < 2 powi (e + 1)\<close>, for positive \<open>x\<close>.\<close>

definition binade :: "rat \<Rightarrow> int" where
  "binade x = (if 1 \<le> x then bitlen \<lfloor>x\<rfloor> - 1 else - bitlen (\<lceil>1 / x\<rceil> - 1))"

definition to_double :: "rat \<Rightarrow> rat" where
  "to_double x =
     (if x = 0 then 0
      else let a = \<bar>x\<bar>; e = binade a;
               m = round_half_even (a * 2 powi (52 - e))
           in sgn x * of_int m * 2 powi (e - 52))"

text \<open>The operator \<^verbatim>\<open>/\<close> on two doubles, the divisor not zero.\<close>

definition js_div :: "rat \<Rightarrow> rat \<Rightarrow> rat" where
  "js_div x y = to_double (x / y)"

definition sizes :: "string list" where
  "sizes = [''Bytes'', ''KB'', ''MB'', ''GB'', ''TB'']"

text \<open>\<^verbatim>\<open>sizes[i]\<close>: reading an array outside its indices gives \<^verbatim>\<open>undefined\<close>, here \<open>None\<close>.\<close>

definition sizes_at :: "int \<Rightarrow> string option" where
  "sizes_at i = (if 0 \<le> i \<and> i < int (length sizes) then Some (sizes ! nat i) else None)"

text \<open>
  \<^verbatim>\<open>Math.log\<close> is a built-in whose result the language leaves to the
  implementation (an approximation of the natural logarithm), so it is the parameter
  \<open>mlog\<close>. \<open>unit_index\<close> is the constant \<^verbatim>\<open>i\<close> of the source.
\<close>

definition unit_index :: "(rat \<Rightarrow> rat) \<Rightarrow> rat \<Rightarrow> int" where
  "unit_index mlog bytes = \<lfloor>js_div (mlog bytes) (mlog 1024)\<rfloor>"

text \<open>
  The result of \<^verbatim>\<open>formatBytes\<close>, before it is printed: the literal of the first
  branch, or the scaled quantity with the number of digits handed to
  \<^verbatim>\<open>toFixed\<close> and the unit \<^verbatim>\<open>sizes[i]\<close>, or the \<^verbatim>\<open>RangeError\<close> that
  \<^verbatim>\<open>toFixed\<close> throws for more than \<open>100\<close> digits. The digits are an integer
  here. The conversions \<^verbatim>\<open>toFixed\<close> and \<^verbatim>\<open>parseFloat\<close> and the string
  concatenation are left out; a unit \<open>None\<close> is printed as the text
  \<^verbatim>\<open>undefined\<close>.
\<close>

datatype formatted = Literal string | Quantity rat int "string option" | RangeError

definition formatBytes :: "(rat \<Rightarrow> rat) \<Rightarrow> rat \<Rightarrow> int \<Rightarrow> formatted" where
  "formatBytes mlog bytes decimals =
     (if bytes = 0 then Literal ''0 Bytes''
      else let k = 1024;
               dm = (if decimals < 0 then 0 else decimals);
               i = \<lfloor>js_div (mlog bytes) (mlog k)\<rfloor>
           in if 100 < dm then RangeError
              else Quantity (js_div bytes (to_double (k powi i))) dm (sizes_at i))"

text \<open>
  For comparison, the index in exact arithmetic: the integer part of the logarithm of
  \<open>bytes\<close> to the base \<open>1024 = 2 ^ 10\<close>.
\<close>

definition exact_unit_index :: "rat \<Rightarrow> int" where
  "exact_unit_index bytes = binade bytes div 10"

section \<open>The Research Aggregator, as the specification describes it\<close>

text \<open>
  The record of a research result keeps the columns that \<^verbatim>\<open>SETUP_DB.md\<close> lists
  for the table \<^verbatim>\<open>research_data\<close>: \<^verbatim>\<open>sources_found\<close>,
  \<^verbatim>\<open>relevance_score\<close> and \<^verbatim>\<open>content_summary\<close>. A source carries its
  address, its relevance and its text; scores are rationals.
\<close>

record source =
  src_url :: string
  relevance :: rat
  src_text :: string

record research_bundle =
  sources_found :: "source list"
  relevance_score :: rat
  content_summary :: string

text \<open>
  Modelled from the spec: issuing the queries of section 4.3; the function is not among
  the source files. The search backend is the parameter \<open>backend\<close>; \<open>None\<close> is a
  query that failed, which costs its sources only. At most \<open>perQueryResultCap\<close>
  results of a query are taken.
\<close>

definition issue_queries ::
  "(string \<Rightarrow> source list option) \<Rightarrow> nat \<Rightarrow> string list \<Rightarrow> source list" where
  "issue_queries backend perQueryResultCap queries =
     concat (map (\<lambda>q. case backend q of
                          None \<Rightarrow> []
                        | Some rs \<Rightarrow> take perQueryResultCap rs) queries)"

text \<open>
  Modelled from the spec: deduplication by canonical identity (section 4.3), the identity
  being the parameter \<open>key\<close>. Of two sources with one identity the first discovered
  is kept; \<open>seen\<close> holds the identities met so far.
\<close>

fun dedupe_by :: "('a \<Rightarrow> 'k) \<Rightarrow> 'k list \<Rightarrow> 'a list \<Rightarrow> 'a list" where
  "dedupe_by key seen [] = []"
| "dedupe_by key seen (x # xs) =
     (if key x \<in> set seen then dedupe_by key seen xs
      else x # dedupe_by key (key x # seen) xs)"

text \<open>
  Modelled from the spec: sorting by relevance score, descending (section 4.3). The sort
  is stable: sources of equal relevance stay in the order of discovery.
\<close>

definition rank :: "source list \<Rightarrow> source list" where
  "rank ss = sort_key (\<lambda>s. - relevance s) ss"

text \<open>
  Modelled from the spec: the aggregate relevance score of section 4.3, the mean of the
  scores, or \<open>0\<close> of no source.
\<close>

definition mean_relevance :: "source list \<Rightarrow> rat" where
  "mean_relevance ss =
     (if ss = [] then 0 else sum_list (map relevance ss) / of_nat (length ss))"

text \<open>
  Modelled from the spec: \<open>research(queries, perQueryResultCap, totalSourceCap)\<close> of
  section 4.3, which is not among the source files, step by step in the order the
  section gives. The canonical identity of a source is the parameter \<open>canonical\<close>, the
  summary of the retained texts is the parameter \<open>summarise\<close>.
\<close>

definition research ::
  "(string \<Rightarrow> source list option) \<Rightarrow> (source \<Rightarrow> string) \<Rightarrow> (string list \<Rightarrow> string) \<Rightarrow>
   string list \<Rightarrow> nat \<Rightarrow> nat \<Rightarrow> research_bundle" where
  "research backend canonical summarise queries perQueryResultCap totalSourceCap =
     (let found = issue_queries backend perQueryResultCap queries;
          unique = dedupe_by canonical [] found;
          kept = take totalSourceCap (rank unique)
      in \<lparr>sources_found = kept,
          relevance_score = mean_relevance kept,
          content_summary = summarise (map src_text kept)\<rparr>)"

section \<open>Properties of \<^verbatim>\<open>debounce\<close>\<close>

lemma advance_keep:
  "pending w = [(i, d, a)] \<Longrightarrow> t < d \<Longrightarrow>
   pending (advance t w) = [(i, d, a)] \<and> invoked (advance t w) = invoked w \<and>
   timeout (advance t w) = timeout w \<and> clock (advance t w) = max (clock w) t \<and>
   next_id (advance t w) = next_id w"
  by (simp add: advance_def)

lemma advance_fire:
  "pending w = [(i, d, a)] \<Longrightarrow> d \<le> t \<Longrightarrow>
   pending (advance t w) = [] \<and> invoked (advance t w) = invoked w @ [(d, a)] \<and>
   timeout (advance t w) = timeout w \<and> clock (advance t w) = max (clock w) t \<and>
   next_id (advance t w) = next_id w"
  by (simp add: advance_def)

lemma debounced_single:
  "pending w = [(i, d, b)] \<Longrightarrow> timeout w = Some i \<Longrightarrow>
   pending (debounced wait a w) = [(next_id w, clock w + timer_delay wait, a)] \<and>
   timeout (debounced wait a w) = Some (next_id w) \<and>
   invoked (debounced wait a w) = invoked w \<and>
   clock (debounced wait a w) = clock w \<and>
   next_id (debounced wait a w) = Suc (next_id w)"
  by (simp add: debounced_def clearTimeout_def setTimeout_def)

lemma debounced_idle:
  "pending w = [] \<Longrightarrow>
   pending (debounced wait a w) = [(next_id w, clock w + timer_delay wait, a)] \<and>
   timeout (debounced wait a w) = Some (next_id w) \<and>
   invoked (debounced wait a w) = invoked w \<and>
   clock (debounced wait a w) = clock w \<and>
   next_id (debounced wait a w) = Suc (next_id w)"
  by (simp add: debounced_def clearTimeout_def setTimeout_def split: option.splits)

lemma flush_single:
  "pending w = [(i, d, a)] \<Longrightarrow>
   invoked (flush w) = invoked w @ [(d, a)] \<and> pending (flush w) = []"
  by (simp add: flush_def advance_def)

lemma call_at_eq: "call_at wait w c = debounced wait (snd c) (advance (fst c) w)"
proof -
  have "(advance (fst c) w)\<lparr>clock := max (clock (advance (fst c) w)) (fst c)\<rparr> = advance (fst c) w"
    by (simp add: advance_def)
  then show ?thesis by (simp add: call_at_def)
qed

lemma run_calls_Cons: "run_calls wait (c # cs) w = run_calls wait cs (call_at wait w c)"
  by (simp add: run_calls_def)

lemma run_events_Cons: "run_events wait (e # es) w = run_events wait es (step wait w e)"
  by (simp add: run_events_def)

lemma bursts_nonempty: "b \<in> set (bursts wait cs) \<Longrightarrow> b \<noteq> []"
  by (induction cs arbitrary: b) (auto split: list.splits if_splits)

lemma bursts_Nil_iff: "bursts wait cs = [] \<longleftrightarrow> cs = []"
  by (cases cs) (auto split: list.splits)

lemma bursts_hd: "cs \<noteq> [] \<Longrightarrow> hd (hd (bursts wait cs)) = hd cs"
  by (cases cs) (auto split: list.splits)

text \<open>Cutting into bursts loses and reorders nothing.\<close>

lemma concat_bursts: "concat (bursts wait cs) = cs"
  by (induction cs) (auto split: list.splits)

lemma map_last_bursts: "map last (bursts wait cs) = burst_lasts wait cs"
proof (induction wait cs rule: burst_lasts.induct)
  case (3 wait c d cs)
  have ne: "bursts wait (d # cs) \<noteq> []"
    using bursts_Nil_iff [of wait "d # cs"] by blast
  then obtain b bs where b: "bursts wait (d # cs) = b # bs"
    by (cases "bursts wait (d # cs)") auto
  have hb: "hd b = d" using bursts_hd [of "d # cs" wait] b by simp
  have bne: "b \<noteq> []" using bursts_nonempty [of b wait "d # cs"] b by simp
  show ?case
  proof (cases "fst d < fst c + wait")
    case True
    with 3 b hb bne show ?thesis by simp
  next
    case False
    with 3 b hb bne show ?thesis by simp
  qed
qed simp_all

lemma burst_lasts_last:
  "cs \<noteq> [] \<Longrightarrow> burst_lasts wait cs \<noteq> [] \<and> last (burst_lasts wait cs) = last cs"
  by (induction wait cs rule: burst_lasts.induct) auto

text \<open>
  The loop invariant: between two calls exactly one timer is pending, the one of the
  latest call, and \<^verbatim>\<open>timeout\<close> holds its id.
\<close>

lemma run_calls_state:
  "pending w = [(i, tp + timer_delay wait, a)] \<Longrightarrow> timeout w = Some i \<Longrightarrow> clock w = tp \<Longrightarrow>
   next_id w = Suc i \<Longrightarrow> sorted (tp # map fst calls) \<Longrightarrow>
   pending (run_calls wait calls w) =
     [(i + length calls, fst (last ((tp, a) # calls)) + timer_delay wait, snd (last ((tp, a) # calls)))] \<and>
   invoked (run_calls wait calls w) =
     invoked w @ map (\<lambda>(t, x). (t + timer_delay wait, x)) (butlast (burst_lasts (timer_delay wait) ((tp, a) # calls)))"
proof (induction calls arbitrary: w i tp a)
  case Nil
  then show ?case by (simp add: run_calls_def)
next
  case (Cons c cs)
  obtain t b where c: "c = (t, b)" by (cases c)
  from Cons.prems c have le: "tp \<le> t" and srt: "sorted (t # map fst cs)" by auto
  let ?w1 = "advance t w"
  let ?w2 = "debounced wait b ?w1"
  have step: "call_at wait w c = ?w2" by (simp add: call_at_eq c)
  have ne: "burst_lasts (timer_delay wait) ((t, b) # cs) \<noteq> []"
    using burst_lasts_last [of "(t, b) # cs" "timer_delay wait"] by simp
  show ?case
  proof (cases "t < tp + timer_delay wait")
    case True
    from advance_keep [OF Cons.prems(1) True] Cons.prems(2,3,4) le
    have a1: "pending ?w1 = [(i, tp + timer_delay wait, a)]" "invoked ?w1 = invoked w"
      "timeout ?w1 = Some i" "clock ?w1 = t" "next_id ?w1 = Suc i"
      by (simp_all add: max_def)
    from debounced_single [OF a1(1) a1(3), of wait b] a1
    have a2: "pending ?w2 = [(Suc i, t + timer_delay wait, b)]" "timeout ?w2 = Some (Suc i)"
      "invoked ?w2 = invoked w" "clock ?w2 = t" "next_id ?w2 = Suc (Suc i)"
      by simp_all
    from Cons.IH [OF a2(1) a2(2) a2(4) a2(5) srt] a2(3) True c step
    show ?thesis by (simp add: run_calls_Cons)
  next
    case False
    then have due: "tp + timer_delay wait \<le> t" by simp
    from advance_fire [OF Cons.prems(1) due] Cons.prems(2,3,4) le
    have a1: "pending ?w1 = []" "invoked ?w1 = invoked w @ [(tp + timer_delay wait, a)]"
      "clock ?w1 = t" "next_id ?w1 = Suc i"
      by (simp_all add: max_def)
    from debounced_idle [OF a1(1), of wait b] a1
    have a2: "pending ?w2 = [(Suc i, t + timer_delay wait, b)]" "timeout ?w2 = Some (Suc i)"
      "invoked ?w2 = invoked w @ [(tp + timer_delay wait, a)]" "clock ?w2 = t"
      "next_id ?w2 = Suc (Suc i)"
      by simp_all
    from Cons.IH [OF a2(1) a2(2) a2(4) a2(5) srt] a2(3) False c step ne
    show ?thesis by (simp add: run_calls_Cons)
  qed
qed

lemma run_calls_init_state:
  assumes srt: "sorted (map fst calls)" and ne: "calls \<noteq> []"
  shows "pending (run_calls wait calls init_world) =
           [(length calls, fst (last calls) + timer_delay wait, snd (last calls))] \<and>
         invoked (run_calls wait calls init_world) =
           map (\<lambda>(t, x). (t + timer_delay wait, x)) (butlast (burst_lasts (timer_delay wait) calls))"
proof -
  from ne obtain c cs where Cons: "calls = c # cs" by (cases calls) auto
  obtain t b where c: "c = (t, b)" by (cases c)
  let ?w = "call_at wait init_world c"
  have p: "pending ?w = [(1, t + timer_delay wait, b)]" "timeout ?w = Some 1" "clock ?w = t"
    "next_id ?w = Suc 1" "invoked ?w = []"
    by (simp_all add: call_at_eq c debounced_def clearTimeout_def setTimeout_def
        advance_def init_world_def)
  from srt Cons c have "sorted (t # map fst cs)" by simp
  from run_calls_state [OF p(1) p(2) p(3) p(4) this] p(5) Cons c
  show ?thesis by (simp add: run_calls_Cons)
qed

text \<open>
  Any history in the order of time, late timers included: whatever \<^verbatim>\<open>func\<close> has
  run so far is, in order, a selection of the invocations the bursts are entitled to,
  and at most one timer is pending. Both shapes of the state are carried through the
  induction: no timer pending, or the timer of the latest call.
\<close>

lemma calls_of_times: "c \<in> set (calls_of evs) \<Longrightarrow> fst c \<in> ev_time ` set evs"
  by (induction evs rule: calls_of.induct) auto

lemma burst_lasts_far:
  "\<forall>c \<in> set cs. tp + wait \<le> fst c \<Longrightarrow> burst_lasts wait ((tp, a) # cs) = (tp, a) # burst_lasts wait cs"
  by (cases cs) auto

lemma burst_lasts_subseq: "subseq (burst_lasts wait cs) (burst_lasts wait (c # cs))"
  by (cases cs) auto

lemma run_events_invoked:
  fixes w :: "'a world"
  assumes "sorted (map ev_time evs)" "\<forall>e \<in> set evs. clock w \<le> ev_time e"
  shows "(pending w = [] \<longrightarrow>
            (\<exists>xs. invoked (run_events wait evs w) = invoked w @ xs \<and>
                  subseq xs (map (\<lambda>(t, x). (t + timer_delay wait, x)) (burst_lasts (timer_delay wait) (calls_of evs))) \<and>
                  length (pending (run_events wait evs w)) \<le> 1)) \<and>
         (\<forall>i tp a. pending w = [(i, tp + timer_delay wait, a)] \<and> timeout w = Some i \<and> tp \<le> clock w \<longrightarrow>
            (\<exists>xs. invoked (run_events wait evs w) = invoked w @ xs \<and>
                  subseq xs (map (\<lambda>(t, x). (t + timer_delay wait, x)) (burst_lasts (timer_delay wait) ((tp, a) # calls_of evs))) \<and>
                  length (pending (run_events wait evs w)) \<le> 1))"
  using assms
proof (induction evs arbitrary: w)
  case Nil
  show ?case by (auto simp: run_events_def)
next
  case (Cons e es)
  let ?F = "\<lambda>(t, x). (t + timer_delay wait, x)"
  let ?w' = "step wait w e"
  from Cons.prems have srt: "sorted (map ev_time es)" and ge: "\<forall>e' \<in> set es. ev_time e \<le> ev_time e'"
    and ce: "clock w \<le> ev_time e" by auto
  show ?case
  proof (cases e)
    case (Call t b)
    have ck: "clock ?w' = t" using ce Call
      by (simp add: debounced_def clearTimeout_def setTimeout_def max_def split: option.splits)
    have inv: "invoked ?w' = invoked w"
      using Call by (simp add: debounced_def clearTimeout_def setTimeout_def split: option.splits)
    have ge': "\<forall>e' \<in> set es. clock ?w' \<le> ev_time e'" using ge ck Call by simp
    note IH = Cons.IH [OF srt ge', THEN conjunct2, rule_format]
    have armed: "pending w = [] \<or> (\<exists>i d a. pending w = [(i, d, a)] \<and> timeout w = Some i) \<Longrightarrow>
       pending ?w' = [(next_id w, t + timer_delay wait, b)] \<and> timeout ?w' = Some (next_id w)"
      using ce Call
      by (auto simp: debounced_def clearTimeout_def setTimeout_def max_def split: option.splits)
    show ?thesis
    proof (intro conjI impI allI)
      assume "pending w = []"
      then have a: "pending ?w' = [(next_id w, t + timer_delay wait, b)]" "timeout ?w' = Some (next_id w)"
        using armed by simp_all
      from IH [of "next_id w" t b] a ck
      obtain xs where "invoked (run_events wait es ?w') = invoked ?w' @ xs"
        "subseq xs (map ?F (burst_lasts (timer_delay wait) ((t, b) # calls_of es)))"
        "length (pending (run_events wait es ?w')) \<le> 1" by auto
      then show "\<exists>xs. invoked (run_events wait (e # es) w) = invoked w @ xs \<and>
                  subseq xs (map ?F (burst_lasts (timer_delay wait) (calls_of (e # es)))) \<and>
                  length (pending (run_events wait (e # es) w)) \<le> 1"
        using inv Call by (auto simp: run_events_Cons)
    next
      fix i tp a
      assume p: "pending w = [(i, tp + timer_delay wait, a)] \<and> timeout w = Some i \<and> tp \<le> clock w"
      then have a: "pending ?w' = [(next_id w, t + timer_delay wait, b)]" "timeout ?w' = Some (next_id w)"
        using armed by simp_all
      from IH [of "next_id w" t b] a ck
      obtain xs where xs: "invoked (run_events wait es ?w') = invoked ?w' @ xs"
        "subseq xs (map ?F (burst_lasts (timer_delay wait) ((t, b) # calls_of es)))"
        "length (pending (run_events wait es ?w')) \<le> 1" by auto
      have "subseq (map ?F (burst_lasts (timer_delay wait) ((t, b) # calls_of es)))
                   (map ?F (burst_lasts (timer_delay wait) ((tp, a) # (t, b) # calls_of es)))"
        by (rule subseq_map) (rule burst_lasts_subseq)
      with xs(2) have "subseq xs (map ?F (burst_lasts (timer_delay wait) ((tp, a) # (t, b) # calls_of es)))"
        by (rule subseq_order.order_trans)
      with xs(1,3) show "\<exists>xs. invoked (run_events wait (e # es) w) = invoked w @ xs \<and>
                  subseq xs (map ?F (burst_lasts (timer_delay wait) ((tp, a) # calls_of (e # es)))) \<and>
                  length (pending (run_events wait (e # es) w)) \<le> 1"
        using inv Call by (auto simp: run_events_Cons)
    qed
  next
    case (Tick t)
    have ck: "clock ?w' = t" using ce Tick by (simp add: advance_def max_def)
    have ge': "\<forall>e' \<in> set es. clock ?w' \<le> ev_time e'" using ge ck Tick by simp
    note IH1 = Cons.IH [OF srt ge', THEN conjunct1, rule_format]
    note IH2 = Cons.IH [OF srt ge', THEN conjunct2, rule_format]
    show ?thesis
    proof (intro conjI impI allI)
      assume "pending w = []"
      then have a: "pending ?w' = []" "invoked ?w' = invoked w"
        using Tick by (simp_all add: advance_def)
      from IH1 [OF a(1)] a(2) Tick
      show "\<exists>xs. invoked (run_events wait (e # es) w) = invoked w @ xs \<and>
                  subseq xs (map ?F (burst_lasts (timer_delay wait) (calls_of (e # es)))) \<and>
                  length (pending (run_events wait (e # es) w)) \<le> 1"
        by (auto simp: run_events_Cons)
    next
      fix i tp a
      assume p: "pending w = [(i, tp + timer_delay wait, a)] \<and> timeout w = Some i \<and> tp \<le> clock w"
      show "\<exists>xs. invoked (run_events wait (e # es) w) = invoked w @ xs \<and>
                  subseq xs (map ?F (burst_lasts (timer_delay wait) ((tp, a) # calls_of (e # es)))) \<and>
                  length (pending (run_events wait (e # es) w)) \<le> 1"
      proof (cases "t < tp + timer_delay wait")
        case True
        from advance_keep [of w i "tp + timer_delay wait" a t] p True Tick
        have a: "pending ?w' = [(i, tp + timer_delay wait, a)]" "timeout ?w' = Some i" "invoked ?w' = invoked w"
          by simp_all
        have "tp \<le> clock ?w'" using p ce ck Tick by simp
        from IH2 [of i tp a] a this Tick show ?thesis
          by (auto simp: run_events_Cons)
      next
        case False
        then have due: "tp + timer_delay wait \<le> t" by simp
        from advance_fire [of w i "tp + timer_delay wait" a t] p due Tick
        have a: "pending ?w' = []" "invoked ?w' = invoked w @ [(tp + timer_delay wait, a)]"
          by simp_all
        from IH1 [OF a(1)] obtain xs where xs: "invoked (run_events wait es ?w') = invoked ?w' @ xs"
          "subseq xs (map ?F (burst_lasts (timer_delay wait) (calls_of es)))"
          "length (pending (run_events wait es ?w')) \<le> 1" by auto
        have "\<forall>c \<in> set (calls_of es). tp + timer_delay wait \<le> fst c"
        proof
          fix c assume "c \<in> set (calls_of es)"
          from calls_of_times [OF this] obtain e' where "e' \<in> set es" "fst c = ev_time e'" by auto
          with ge Tick due show "tp + timer_delay wait \<le> fst c" by force
        qed
        from burst_lasts_far [OF this]
        have bl: "burst_lasts (timer_delay wait) ((tp, a) # calls_of es) = (tp, a) # burst_lasts (timer_delay wait) (calls_of es)" .
        have "subseq ((tp + timer_delay wait, a) # xs) (map ?F (burst_lasts (timer_delay wait) ((tp, a) # calls_of es)))"
          using xs(2) by (simp add: bl)
        with xs(1,3) a(2) Tick show ?thesis
          by (auto simp: run_events_Cons)
      qed
    qed
  qed
qed

lemma calls_of_sorted: "sorted (map ev_time evs) \<Longrightarrow> sorted (map fst (calls_of evs))"
proof (induction evs rule: calls_of.induct)
  case (2 t a es)
  have "\<forall>c \<in> set (calls_of es). t \<le> fst c"
  proof
    fix c assume "c \<in> set (calls_of es)"
    from calls_of_times [OF this] obtain e' where "e' \<in> set es" "fst c = ev_time e'" by auto
    with 2(2) show "t \<le> fst c" by auto
  qed
  with 2 show ?case by auto
qed auto

lemma run_calls_punctual:
  assumes "sorted (map fst calls)"
  shows "invoked (flush (run_calls wait calls init_world)) = map (fired (timer_delay wait)) (bursts (timer_delay wait) calls) \<and>
         invoked (run_calls wait calls init_world) =
           map (fired (timer_delay wait)) (butlast (bursts (timer_delay wait) calls)) \<and>
         pending (run_calls wait calls init_world) =
           (if calls = [] then []
            else [(length calls, fst (last calls) + timer_delay wait, snd (last calls))])"
proof (cases "calls = []")
  case True
  then show ?thesis
    by (simp add: run_calls_def flush_def advance_def init_world_def)
next
  case False
  have f: "map (fired (timer_delay wait)) bs = map (\<lambda>(t, x). (t + timer_delay wait, x)) (map last bs)"
    for bs :: "(nat \<times> 'a) list list"
    by (simp add: fired_def case_prod_beta)
  have g: "butlast (burst_lasts (timer_delay wait) calls) = map last (butlast (bursts (timer_delay wait) calls))"
    by (simp add: map_butlast map_last_bursts)
  from run_calls_init_state [OF assms False, of wait]
  have st: "pending (run_calls wait calls init_world) =
              [(length calls, fst (last calls) + timer_delay wait, snd (last calls))]"
    and inv: "invoked (run_calls wait calls init_world) =
              map (\<lambda>(t, x). (t + timer_delay wait, x)) (butlast (burst_lasts (timer_delay wait) calls))"
    by simp_all
  from burst_lasts_last [OF False, of "timer_delay wait"]
  have bl: "burst_lasts (timer_delay wait) calls =
            butlast (burst_lasts (timer_delay wait) calls) @ [last calls]"
    by (metis append_butlast_last_id)
  from flush_single [OF st]
  have "invoked (flush (run_calls wait calls init_world)) =
        map (\<lambda>(t, x). (t + timer_delay wait, x)) (butlast (burst_lasts (timer_delay wait) calls)) @
        [(fst (last calls) + timer_delay wait, snd (last calls))]"
    by (simp add: inv)
  also have "\<dots> = map (\<lambda>(t, x). (t + timer_delay wait, x)) (butlast (burst_lasts (timer_delay wait) calls) @ [last calls])"
    by (simp add: case_prod_beta)
  also have "\<dots> = map (\<lambda>(t, x). (t + timer_delay wait, x)) (burst_lasts (timer_delay wait) calls)"
    using bl by simp
  finally have fl: "invoked (flush (run_calls wait calls init_world)) =
                    map (fired (timer_delay wait)) (bursts (timer_delay wait) calls)"
    by (simp only: f map_last_bursts)
  from inv have "invoked (run_calls wait calls init_world) =
                 map (fired (timer_delay wait)) (butlast (bursts (timer_delay wait) calls))"
    by (simp only: f g)
  with fl st False show ?thesis by simp
qed

text \<open>A delay from \<open>0\<close> to below \<open>2 ^ 31\<close> is taken as it is.\<close>

lemma timer_delay_in_range: "0 \<le> wait \<Longrightarrow> wait < 2 ^ 31 \<Longrightarrow> timer_delay wait = nat wait"
  by (simp add: timer_delay_def to_long_def)

text \<open>
  For every delay, the bursts of the delay the timer really gets: whatever
  \<^verbatim>\<open>func\<close> has run so far is a selection of one invocation per burst, at most one
  timer is pending, and a punctual loop serves every burst.
\<close>

lemma debounce_effective_delay:
  assumes "sorted (map ev_time evs)"
  shows "subseq (invoked (run_events wait evs init_world))
           (map (fired (timer_delay wait)) (bursts (timer_delay wait) (calls_of evs))) \<and>
         length (pending (run_events wait evs init_world)) \<le> 1 \<and>
         invoked (flush (run_calls wait (calls_of evs) init_world)) =
           map (fired (timer_delay wait)) (bursts (timer_delay wait) (calls_of evs))"
proof -
  have f: "map (fired (timer_delay wait)) bs =
           map (\<lambda>(t, x). (t + timer_delay wait, x)) (map last bs)"
    for bs :: "(nat \<times> 'a) list list"
    by (simp add: fired_def case_prod_beta)
  have "\<forall>e \<in> set evs. clock (init_world :: 'a world) \<le> ev_time e"
    by (simp add: init_world_def)
  from run_events_invoked [OF assms this, of wait, THEN conjunct1]
  obtain xs where "invoked (run_events wait evs init_world) = invoked (init_world :: 'a world) @ xs"
    "subseq xs (map (\<lambda>(t, x). (t + timer_delay wait, x))
                  (burst_lasts (timer_delay wait) (calls_of evs)))"
    "length (pending (run_events wait evs init_world)) \<le> 1"
    by (auto simp: init_world_def)
  then have general: "subseq (invoked (run_events wait evs init_world))
           (map (fired (timer_delay wait)) (bursts (timer_delay wait) (calls_of evs)))"
    "length (pending (run_events wait evs init_world)) \<le> 1"
    by (simp_all add: f map_last_bursts init_world_def)
  from run_calls_punctual [OF calls_of_sorted [OF assms], of wait]
  have "invoked (flush (run_calls wait (calls_of evs) init_world)) =
           map (fired (timer_delay wait)) (bursts (timer_delay wait) (calls_of evs))"
    by simp
  with general show ?thesis by simp
qed

text \<open>
  Claim C9, as amended. For every delay \<open>wait\<close>, a whole number of milliseconds from
  \<open>0\<close> to below \<open>2 ^ 31\<close>, and every finite history of calls of the debounced function and of runs of the timer loop,
  in the order of time: each call cancels the pending timer before it sets its own, so
  at most one timer is ever pending; and what \<^verbatim>\<open>func\<close> has been invoked with is,
  in order, a selection of one invocation per burst (a maximal run of calls less than
  \<open>wait\<close> apart), each with the context and arguments of the burst's most recent call:
  at most once per burst. When the loop is punctual, every burst gets its invocation,
  \<open>wait\<close> after its last call: exactly once per burst.
\<close>

theorem debounce_once_per_burst:
  assumes "sorted (map ev_time evs)" and "0 \<le> wait" and "wait < 2 ^ 31"
  shows "subseq (invoked (run_events wait evs init_world))
           (map (fired (nat wait)) (bursts (nat wait) (calls_of evs))) \<and>
         length (pending (run_events wait evs init_world)) \<le> 1 \<and>
         invoked (flush (run_calls wait (calls_of evs) init_world)) =
           map (fired (nat wait)) (bursts (nat wait) (calls_of evs))"
  using debounce_effective_delay [OF assms(1), of wait] timer_delay_in_range [OF assms(2,3)]
  by simp

theorem debounce_once_per_burst_witness:
  "sorted (map ev_time [Call 0 ''a'', Call 50 ''b'', Tick 130, Call 140 ''c'', Tick 300,
                        Call 400 ''d'', Call 520 ''e'', Tick 700]) \<and>
   (0::int) \<le> 100 \<and> (100::int) < 2 ^ 31 \<and>
   bursts (nat 100) (calls_of [Call 0 ''a'', Call 50 ''b'', Tick 130, Call 140 ''c'', Tick 300,
                         Call 400 ''d'', Call 520 ''e'', Tick 700]) =
     [[(0, ''a''), (50, ''b''), (140, ''c'')], [(400, ''d'')], [(520, ''e'')]] \<and>
   invoked (run_events 100 [Call 0 ''a'', Call 50 ''b'', Tick 130, Call 140 ''c'', Tick 300,
                            Call 400 ''d'', Call 520 ''e'', Tick 700] init_world) =
     [(240, ''c''), (620, ''e'')] \<and>
   subseq [(240, ''c''), (620, ''e'')] [(240, ''c''), (500, ''d''), (620, ''e'')] \<and>
   invoked (flush (run_calls 100 (calls_of [Call 0 ''a'', Call 50 ''b'', Tick 130, Call 140 ''c'',
                                            Tick 300, Call 400 ''d'', Call 520 ''e'', Tick 700])
                     init_world)) =
     [(240, ''c''), (500, ''d''), (620, ''e'')]"
proof -
  have td: "timer_delay 100 = 100"
    by (simp add: timer_delay_def to_long_def)
  have ev: "invoked (run_events 100 [Call 0 ''a'', Call 50 ''b'', Tick 130, Call 140 ''c'', Tick 300,
                            Call 400 ''d'', Call 520 ''e'', Tick 700] init_world) =
     [(240, ''c''), (620, ''e'')]"
    by (simp add: run_events_def init_world_def debounced_def clearTimeout_def setTimeout_def
        advance_def td)
  show ?thesis
    using debounce_once_per_burst [of "[Call 0 ''a'', Call 50 ''b'', Tick 130, Call 140 ''c'',
        Tick 300, Call 400 ''d'', Call 520 ''e'', Tick 700]" 100]
    by (simp add: ev fired_def)
qed

text \<open>
  The claim as it was stated, for every delay, fails from \<open>2 ^ 31\<close> on. With
  \<open>wait = 2147483648\<close> the timer of each call is due at once: a call at \<open>0\<close> and a
  call at \<open>20\<close> are \<open>20\<close> ms apart, one burst of calls within \<open>wait\<close> of each other,
  and \<^verbatim>\<open>func\<close> runs for both.
\<close>

theorem debounce_wait_overflow_counterexample:
  "bursts (nat 2147483648) (calls_of [Call 0 ''a'', Tick 10, Call 20 ''b'', Tick 30]) =
     [[(0, ''a''), (20, ''b'')]] \<and>
   map snd (invoked (run_events 2147483648 [Call 0 ''a'', Tick 10, Call 20 ''b'', Tick 30]
              init_world)) = [''a'', ''b''] \<and>
   \<not> subseq (invoked (run_events 2147483648 [Call 0 ''a'', Tick 10, Call 20 ''b'', Tick 30]
               init_world))
       (map (fired (nat 2147483648))
          (bursts (nat 2147483648) (calls_of [Call 0 ''a'', Tick 10, Call 20 ''b'', Tick 30])))"
proof -
  have td: "timer_delay 2147483648 = 0"
    by (simp add: timer_delay_def to_long_def)
  have ev: "invoked (run_events 2147483648 [Call 0 ''a'', Tick 10, Call 20 ''b'', Tick 30]
              init_world) = [(0, ''a''), (20, ''b'')]"
    by (simp add: run_events_def init_world_def debounced_def clearTimeout_def setTimeout_def
        advance_def td)
  show ?thesis
    by (simp add: ev fired_def)
qed

section \<open>Properties of the submit handlers\<close>


text \<open>An element matches \<^verbatim>\<open>:invalid\<close> exactly when a control in it is invalid.\<close>

lemma matches_invalid_iff: "matches_invalid n \<longleftrightarrow> \<not> controls_valid n"
  by (induction n) (auto simp: list_ex_iff list_all_iff)

text \<open>So a form that fails \<^verbatim>\<open>checkValidity()\<close> has an element to mark and to scroll to.\<close>

lemma invalid_form_has_match: "\<not> checkValidity frm \<longleftrightarrow> list_ex matches_invalid (form_nodes frm)"
  by (auto simp: checkValidity_def list_ex_iff list_all_iff matches_invalid_iff)

lemma mark_invalid_matches: "matches_invalid (mark_invalid n) = matches_invalid n"
  by (induction n) (auto simp: list_ex_iff)




section \<open>Properties of \<^verbatim>\<open>formatBytes\<close>\<close>

text \<open>
  The rounding is the one intended: \<open>binade\<close> finds the power of two at or below a
  positive rational, and \<open>to_double\<close> moves a value by at most half a unit in the
  last of the 53 places.
\<close>

lemma binade_ge1:
  assumes "1 \<le> (x::rat)"
  shows "2 powi binade x \<le> x \<and> x < 2 powi (binade x + 1)"
proof -
  let ?m = "\<lfloor>x\<rfloor>"
  have m: "0 < ?m" using assms by simp
  from bitlen_bounds [OF m] have b: "2 ^ nat (bitlen ?m - 1) \<le> ?m" "?m < 2 ^ nat (bitlen ?m)"
    by simp_all
  have b1: "1 \<le> bitlen ?m" using m by (simp add: bitlen_alt_def)
  have "(2::rat) powi (bitlen ?m - 1) = 2 ^ nat (bitlen ?m - 1)"
    using b1 by (simp add: power_int_def)
  also have "\<dots> = of_int (2 ^ nat (bitlen ?m - 1))" by simp
  also have "\<dots> \<le> of_int ?m" using b(1) by (simp only: of_int_le_iff)
  also have "\<dots> \<le> x" by simp
  finally have lo: "2 powi (bitlen ?m - 1) \<le> x" .
  have "?m + 1 \<le> 2 ^ nat (bitlen ?m)" using b(2) by simp
  then have "(of_int (?m + 1) :: rat) \<le> of_int (2 ^ nat (bitlen ?m))" by (simp only: of_int_le_iff)
  moreover have "x < of_int (?m + 1)" by linarith
  ultimately have "x < of_int (2 ^ nat (bitlen ?m))" by linarith
  also have "\<dots> = 2 powi (bitlen ?m)" using b1 by (simp add: power_int_def)
  finally have hi: "x < 2 powi (bitlen ?m)" .
  from lo hi assms show ?thesis by (simp add: binade_def)
qed

lemma binade_lt1:
  assumes "0 < (x::rat)" "x < 1"
  shows "2 powi binade x \<le> x \<and> x < 2 powi (binade x + 1)"
proof -
  let ?y = "1 / x"
  let ?n = "\<lceil>?y\<rceil> - 1"
  have y1: "1 < ?y" using assms by simp
  have n: "0 < ?n" using y1 by linarith
  have ny: "of_int ?n < ?y" "?y \<le> of_int ?n + 1" by linarith+
  from bitlen_bounds [OF n] have b: "2 ^ nat (bitlen ?n - 1) \<le> ?n" "?n < 2 ^ nat (bitlen ?n)"
    by simp_all
  have b1: "1 \<le> bitlen ?n" using n by (simp add: bitlen_alt_def)
  have "(of_int (2 ^ nat (bitlen ?n - 1)) :: rat) \<le> of_int ?n" using b(1) by (simp only: of_int_le_iff)
  then have lo: "(2::rat) ^ nat (bitlen ?n - 1) < ?y" using ny(1) by simp
  have "?n + 1 \<le> 2 ^ nat (bitlen ?n)" using b(2) by simp
  then have "(of_int (?n + 1) :: rat) \<le> of_int (2 ^ nat (bitlen ?n))" by (simp only: of_int_le_iff)
  moreover have "?y \<le> of_int (?n + 1)" using ny(2) by simp
  ultimately have "?y \<le> of_int (2 ^ nat (bitlen ?n))" by (rule order_trans [rotated])
  then have hi: "?y \<le> (2::rat) ^ nat (bitlen ?n)" by simp
  have p1: "(2::rat) powi (- bitlen ?n) = 1 / 2 ^ nat (bitlen ?n)"
    using b1 by (simp add: power_int_def field_simps)
  have p2: "(2::rat) powi (- bitlen ?n + 1) = 1 / 2 ^ nat (bitlen ?n - 1)"
    using b1 by (simp add: power_int_def field_simps nat_diff_distrib)
  have "1 / 2 ^ nat (bitlen ?n) \<le> x"
    using hi assms(1) by (simp add: field_simps)
  moreover have "x < 1 / 2 ^ nat (bitlen ?n - 1)"
    using lo assms(1) by (simp add: field_simps)
  ultimately show ?thesis using assms p1 p2 by (simp add: binade_def)
qed

lemma binade_bounds: "0 < x \<Longrightarrow> 2 powi binade x \<le> x \<and> x < 2 powi (binade x + 1)"
  using binade_ge1 [of x] binade_lt1 [of x] by (cases "1 \<le> x") auto


lemma round_half_even_near: "\<bar>of_int (round_half_even y) - y\<bar> \<le> 1 / 2"
proof -
  have "of_int \<lfloor>y\<rfloor> \<le> y" "y < of_int \<lfloor>y\<rfloor> + 1" by linarith+
  then show ?thesis
    by (auto simp: round_half_even_def Let_def abs_le_iff)
qed

lemma to_double_near:
  assumes "x \<noteq> 0"
  shows "\<bar>to_double x - x\<bar> \<le> 2 powi (binade \<bar>x\<bar> - 53)"
proof -
  define a where "a = \<bar>x\<bar>"
  define e where "e = binade a"
  define m where "m = round_half_even (a * 2 powi (52 - e))"
  have td: "to_double x = sgn x * (of_int m * 2 powi (e - 52))"
    using assms by (simp add: to_double_def Let_def a_def e_def m_def mult.assoc)
  have x: "x = sgn x * a" by (simp add: a_def sgn_mult_abs)
  have s: "\<bar>sgn x\<bar> = 1" using assms by (simp add: abs_sgn_eq)
  have p: "(2::rat) powi (52 - e) * 2 powi (e - 52) = 1"
    by (simp add: power_int_add [symmetric])
  have q: "(2::rat) powi (e - 53) = (1 / 2) * 2 powi (e - 52)"
    by (simp add: power_int_diff)
  have "to_double x - x = sgn x * (of_int m * 2 powi (e - 52) - a)"
    by (subst (2) x) (simp add: td algebra_simps)
  also have "of_int m * 2 powi (e - 52) - a =
             (of_int m - a * 2 powi (52 - e)) * 2 powi (e - 52)"
    using p by (simp add: algebra_simps)
  finally have "\<bar>to_double x - x\<bar> = \<bar>of_int m - a * 2 powi (52 - e)\<bar> * 2 powi (e - 52)"
    using s by (simp add: abs_mult)
  also have "\<dots> \<le> (1 / 2) * 2 powi (e - 52)"
    using round_half_even_near [of "a * 2 powi (52 - e)"]
    by (intro mult_right_mono) (simp_all add: m_def)
  finally have "\<bar>to_double x - x\<bar> \<le> 2 powi (e - 53)" by (simp only: q)
  then show ?thesis by (simp only: e_def a_def)
qed

text \<open>In exact arithmetic the index of every \<open>bytes\<close> from \<open>1\<close> to below \<open>1024 ^ 5\<close> is within \<open>0..4\<close>.\<close>

lemma exact_unit_index_range:
  assumes "1 \<le> bytes" "bytes < 1024 ^ 5"
  shows "0 \<le> exact_unit_index bytes \<and> exact_unit_index bytes \<le> 4"
proof -
  have pos: "0 < bytes" using assms(1) by simp
  from binade_bounds [OF pos]
  have lo: "2 powi binade bytes \<le> bytes" and hi: "bytes < 2 powi (binade bytes + 1)" by simp_all
  have ge: "0 \<le> binade bytes"
  proof (rule ccontr)
    assume "\<not> 0 \<le> binade bytes"
    then have "binade bytes + 1 \<le> 0" by simp
    from power_int_increasing [OF this, of "2::rat"] have "(2::rat) powi (binade bytes + 1) \<le> 1"
      by simp
    with hi assms(1) show False by simp
  qed
  have "binade bytes < 50"
  proof (rule ccontr)
    assume "\<not> binade bytes < 50"
    then have "50 \<le> binade bytes" by simp
    from power_int_increasing [OF this, of "2::rat"] have "(2::rat) powi 50 \<le> 2 powi binade bytes"
      by simp
    with lo assms(2) show False by simp
  qed
  with ge show ?thesis unfolding exact_unit_index_def by presburger
qed

lemma exact_unit_index_top: "exact_unit_index 1125899906842623 = 4"
  by code_simp

lemma formatBytes_zero: "formatBytes mlog 0 decimals = Literal ''0 Bytes''"
  by (simp add: formatBytes_def)

lemma js_div_top:
  "js_div (4877589662629187 / 140737488355328) (7804143460206699 / 1125899906842624) = 5"
  by code_simp

lemma js_div_scaled:
  "js_div 1125899906842623 (to_double 1125899906842624) = 1125899906842623 / 1125899906842624"
  by code_simp

lemma sizes_at_5: "sizes_at 5 = None"
  by (simp add: sizes_at_def sizes_def)

text \<open>
  Claim C8, at the top of its range. The doubles nearest to the natural logarithms of
  \<open>1024 ^ 5 - 1 = 1125899906842623\<close> and of \<open>1024\<close> are
  \<open>4877589662629187 / 2 ^ 47\<close> and \<open>7804143460206699 / 2 ^ 50\<close>. Where
  \<^verbatim>\<open>Math.log\<close> returns them, their quotient rounds to the double \<open>5\<close>, the unit
  index is \<open>5\<close> and \<^verbatim>\<open>sizes[5]\<close> is undefined: the index is not within \<open>0..4\<close>
  although \<open>1 \<le> bytes < 1024 ^ 5\<close>, and the result has no unit (for up to \<open>100\<close>
  digits; beyond that \<^verbatim>\<open>toFixed\<close> throws).
\<close>

theorem formatBytes_top_of_range:
  assumes "mlog 1125899906842623 = 4877589662629187 / 140737488355328"
      and "mlog 1024 = 7804143460206699 / 1125899906842624"
  shows "(1::rat) \<le> 1125899906842623 \<and> (1125899906842623::rat) < 1024 ^ 5 \<and>
         unit_index mlog 1125899906842623 = 5 \<and>
         sizes_at (unit_index mlog 1125899906842623) = None \<and>
         formatBytes mlog 1125899906842623 decimals =
           (if 100 < decimals then RangeError
            else Quantity (1125899906842623 / 1125899906842624)
                   (if decimals < 0 then 0 else decimals) None)"
proof -
  have i: "unit_index mlog 1125899906842623 = 5"
    unfolding unit_index_def assms js_div_top by simp
  have f: "formatBytes mlog 1125899906842623 decimals =
           (if 100 < decimals then RangeError
            else Quantity (1125899906842623 / 1125899906842624)
                   (if decimals < 0 then 0 else decimals) None)"
    unfolding formatBytes_def Let_def assms js_div_top
    by (simp add: js_div_scaled sizes_at_5)
  show ?thesis by (simp add: i f sizes_at_5)
qed

theorem formatBytes_top_of_range_witness:
  "unit_index (\<lambda>x. if x = 1024 then 7804143460206699 / 1125899906842624
                    else 4877589662629187 / 140737488355328) 1125899906842623 = 5 \<and>
   formatBytes (\<lambda>x. if x = 1024 then 7804143460206699 / 1125899906842624
                     else 4877589662629187 / 140737488355328) 1125899906842623 2 =
     Quantity (1125899906842623 / 1125899906842624) 2 None"
  using formatBytes_top_of_range [of
      "\<lambda>x. if x = 1024 then 7804143460206699 / 1125899906842624
            else 4877589662629187 / 140737488355328" 2]
  by simp

section \<open>Properties of the Research Aggregator\<close>

lemma dedupe_by_subset: "set (dedupe_by key seen xs) \<subseteq> set xs"
  by (induction xs arbitrary: seen) auto

lemma dedupe_by_keys: "key ` set (dedupe_by key seen xs) = key ` set xs - set seen"
  by (induction xs arbitrary: seen) auto

lemma dedupe_by_distinct: "distinct (map key (dedupe_by key seen xs))"
proof (induction xs arbitrary: seen)
  case (Cons x xs)
  have "key x \<notin> key ` set (dedupe_by key (key x # seen) xs)"
    by (simp add: dedupe_by_keys)
  with Cons show ?case by simp
qed simp

lemma rank_set: "set (rank ss) = set ss"
  by (simp add: rank_def)

lemma rank_length: "length (rank ss) = length ss"
  by (simp add: rank_def)

lemma rank_sorted: "sorted_wrt (\<lambda>a b. relevance b \<le> relevance a) (rank ss)"
proof -
  have "sorted (map (\<lambda>s. - relevance s) (sort_key (\<lambda>s. - relevance s) ss))"
    by (rule sorted_sort_key)
  then show ?thesis
    by (simp add: rank_def sorted_map)
qed

lemma rank_distinct: "distinct (map key ss) \<Longrightarrow> distinct (map key (rank ss))"
  by (simp add: distinct_map rank_def)

lemma take_sorted_top:
  "sorted_wrt R xs \<Longrightarrow> k \<in> set (take n xs) \<Longrightarrow> u \<in> set (drop n xs) \<Longrightarrow> R k u"
proof -
  assume a: "sorted_wrt R xs" "k \<in> set (take n xs)" "u \<in> set (drop n xs)"
  have "sorted_wrt R (take n xs @ drop n xs)" using a(1) by simp
  then show ?thesis using a(2,3) unfolding sorted_wrt_append by blast
qed

text \<open>
  Claim C6. For every list of queries and both caps, the bundle that \<open>research\<close>
  returns holds sources that were discovered, no two of one canonical identity, in
  descending order of relevance, as many as there are identities but never more than
  \<open>totalSourceCap\<close>; no discovered source left out after deduplication is more relevant
  than a retained one; and the aggregate relevance is the mean of the retained scores,
  \<open>0\<close> when none is retained.
\<close>

theorem research_bundle_ok:
  "(let found = issue_queries backend perQueryResultCap queries;
        b = research backend canonical summarise queries perQueryResultCap totalSourceCap
    in distinct (map canonical (sources_found b)) \<and>
       set (sources_found b) \<subseteq> set found \<and>
       sorted_wrt (\<lambda>s t. relevance t \<le> relevance s) (sources_found b) \<and>
       length (sources_found b) = min totalSourceCap (card (canonical ` set found)) \<and>
       (\<forall>u \<in> set (dedupe_by canonical [] found) - set (sources_found b).
          \<forall>k \<in> set (sources_found b). relevance u \<le> relevance k) \<and>
       relevance_score b =
         (if sources_found b = [] then 0
          else sum_list (map relevance (sources_found b)) / of_nat (length (sources_found b))))"
proof -
  define found where "found = issue_queries backend perQueryResultCap queries"
  define unique where "unique = dedupe_by canonical [] found"
  define kept where "kept = take totalSourceCap (rank unique)"
  have b: "research backend canonical summarise queries perQueryResultCap totalSourceCap =
        \<lparr>sources_found = kept, relevance_score = mean_relevance kept,
         content_summary = summarise (map src_text kept)\<rparr>"
    by (simp add: research_def Let_def found_def unique_def kept_def)
  have du: "distinct (map canonical unique)"
    by (simp add: unique_def dedupe_by_distinct)
  then have dr: "distinct (map canonical (rank unique))" by (rule rank_distinct)
  have 1: "distinct (map canonical kept)"
    using dr by (simp add: kept_def take_map [symmetric] distinct_take del: take_map)
  have 2: "set kept \<subseteq> set found"
    using set_take_subset [of totalSourceCap "rank unique"]
      dedupe_by_subset [of canonical "[]" found]
    by (auto simp: kept_def rank_set unique_def)
  have 3: "sorted_wrt (\<lambda>s t. relevance t \<le> relevance s) kept"
    using rank_sorted [of unique] by (simp add: kept_def sorted_wrt_take)
  have "length unique = card (canonical ` set unique)"
    using du by (metis distinct_card length_map set_map)
  also have "\<dots> = card (canonical ` set found)"
    by (simp add: unique_def dedupe_by_keys)
  finally have lu: "length unique = card (canonical ` set found)" .
  have 4: "length kept = min totalSourceCap (card (canonical ` set found))"
    by (simp add: kept_def rank_length lu min.commute)
  have 5: "\<forall>u \<in> set unique - set kept. \<forall>k \<in> set kept. relevance u \<le> relevance k"
  proof (intro ballI)
    fix u k assume u: "u \<in> set unique - set kept" and k: "k \<in> set kept"
    have "set (rank unique) = set kept \<union> set (drop totalSourceCap (rank unique))"
      unfolding kept_def by (metis append_take_drop_id set_append)
    with u have "u \<in> set (drop totalSourceCap (rank unique))" by (auto simp: rank_set)
    from take_sorted_top [OF rank_sorted k [unfolded kept_def] this]
    show "relevance u \<le> relevance k" .
  qed
  show ?thesis
    using 1 2 3 4 5
    by (simp add: b Let_def found_def [symmetric] unique_def [symmetric] mean_relevance_def)
qed

theorem research_bundle_ok_witness:
  "sources_found (research
      (\<lambda>q. if q = ''a'' then Some [\<lparr>src_url = ''u1'', relevance = 1/2, src_text = ''x''\<rparr>,
                                    \<lparr>src_url = ''u2'', relevance = 9/10, src_text = ''y''\<rparr>]
            else if q = ''b'' then Some [\<lparr>src_url = ''u2'', relevance = 9/10, src_text = ''y''\<rparr>,
                                         \<lparr>src_url = ''u3'', relevance = 7/10, src_text = ''z''\<rparr>]
            else None)
      src_url concat [''a'', ''b'', ''c''] 5 2) =
     [\<lparr>src_url = ''u2'', relevance = 9/10, src_text = ''y''\<rparr>,
      \<lparr>src_url = ''u3'', relevance = 7/10, src_text = ''z''\<rparr>] \<and>
   relevance_score (research
      (\<lambda>q. if q = ''a'' then Some [\<lparr>src_url = ''u1'', relevance = 1/2, src_text = ''x''\<rparr>,
                                    \<lparr>src_url = ''u2'', relevance = 9/10, src_text = ''y''\<rparr>]
            else if q = ''b'' then Some [\<lparr>src_url = ''u2'', relevance = 9/10, src_text = ''y''\<rparr>,
                                         \<lparr>src_url = ''u3'', relevance = 7/10, src_text = ''z''\<rparr>]
            else None)
      src_url concat [''a'', ''b'', ''c''] 5 2) = 4/5"
  using research_bundle_ok [of
      "(\<lambda>q. if q = ''a'' then Some [\<lparr>src_url = ''u1'', relevance = 1/2, src_text = ''x''\<rparr>,
                                    \<lparr>src_url = ''u2'', relevance = 9/10, src_text = ''y''\<rparr>]
            else if q = ''b'' then Some [\<lparr>src_url = ''u2'', relevance = 9/10, src_text = ''y''\<rparr>,
                                         \<lparr>src_url = ''u3'', relevance = 7/10, src_text = ''z''\<rparr>]
            else None)" 5 "[''a'', ''b'', ''c'']" src_url concat 2]
  by (simp add: research_def issue_queries_def rank_def mean_relevance_def Let_def)

end
